theory Spec2Isabelle
  imports Complex_Main "HOL-Library.AList"
begin

section \<open>The capture window engine of \<open>capture_window.py\<close>\<close>

text \<open>
  The class \<open>SignalCaptureWindow\<close> keeps a buffer of readings and turns a valid window
  of readings into a fingerprint. The embedding follows the source method by method:
  \<open>__init__\<close>, \<open>process_reading\<close>, \<open>check_valid_window\<close> and \<open>compose_fingerprint_data\<close>.
  The batch driver \<open>process_readings\<close>, a loop of calls of \<open>process_reading\<close> over dicts of
  untyped values, is not embedded; no property below is about it.

  Conventions of the embedding:
  \<^item> Python floats (timestamps, window sizes, the value of the \<open>tss\<close> filter) are read as
    real numbers; rounding, NaN and infinities of IEEE doubles are not modelled. The one
    exception of float arithmetic the code can raise, the \<open>OverflowError\<close> of
    \<open>10**(rssi/10)\<close>, is modelled.
  \<^item> Python ints are \<open>int\<close>; the numpy reductions are read as exact on them.
  \<^item> A Python dict is an association list with distinct keys in insertion order:
    \<open>d[k] = v\<close> is \<open>AList.update k v d\<close> (replaces in place, appends a new key at the end),
    a lookup is \<open>map_of d k\<close>.
  \<^item> A raised exception is a value \<open>Inl err\<close>; the engine after the call is returned
    beside it, since the buffer is mutated before an exception can be raised.
\<close>

subsection \<open>Values, rows, errors\<close>

datatype pyval = PyInt int | PyFloat real | PyStr string | PyNone

type_synonym dict = "(string \<times> pyval) list"

text \<open>A buffered row: the dict \<open>{'timestamp': t, 'mac_sensor': m, 'rssi': r}\<close> of \<open>process_reading\<close>.\<close>

record reading_row =
  timestamp :: real
  mac_sensor :: string
  rssi :: int

text \<open>
  \<open>InvalidFilteringType\<close> is \<open>Exception('Invalid filtering type')\<close>.
  \<open>EmptyReduction\<close> stands for the exception of \<open>math.floor\<close> or of numpy when a floored
  filter is applied to no value at all (\<open>np.max([])\<close> raises, \<open>math.floor(nan)\<close> raises).
  \<open>OverflowError\<close> is the exception of \<open>10**(rssi/10)\<close> when the quotient or the power is
  out of the range of a double.
\<close>

datatype error = InvalidFilteringType | EmptyReduction | OverflowError

subsection \<open>The engine: configuration and buffer\<close>

record engine =
  sensor_mac_list :: "string list"
  min_window_size :: real
  max_window_size :: real
  min_entries_per_sensor :: int
  min_valid_sensors :: int
  filter_method :: string
  invalid_sensor_value :: int
  readings_stack :: "reading_row list"

text \<open>\<open>__init__\<close>: assigns the seven parameters and an empty buffer; it checks nothing.\<close>

definition init :: "string list \<Rightarrow> real \<Rightarrow> real \<Rightarrow> int \<Rightarrow> int \<Rightarrow> string \<Rightarrow> int \<Rightarrow> engine" where
  "init sensors min_ws max_ws min_entries min_sensors fm invalid =
     \<lparr> sensor_mac_list = sensors, min_window_size = min_ws, max_window_size = max_ws,
       min_entries_per_sensor = min_entries, min_valid_sensors = min_sensors,
       filter_method = fm, invalid_sensor_value = invalid, readings_stack = [] \<rparr>"

subsection \<open>The filters of \<open>compose_fingerprint_data\<close>\<close>

text \<open>\<open>math.floor(np.mean(xs))\<close>.\<close>

definition mean_floor :: "int list \<Rightarrow> int" where
  "mean_floor xs = \<lfloor>real_of_int (sum_list xs) / real (length xs)\<rfloor>"

text \<open>\<open>math.floor(np.median(xs))\<close>: the middle of the sorted values, or the mean of the two middle ones.\<close>

definition median_floor :: "int list \<Rightarrow> int" where
  "median_floor xs =
     (let s = sort xs; n = length s
      in if odd n then s ! (n div 2)
         else \<lfloor>(real_of_int (s ! (n div 2 - 1)) + real_of_int (s ! (n div 2))) / 2\<rfloor>)"

text \<open>\<open>stats.mode(xs)[0]\<close>: the most frequent value, the smallest one among equals.\<close>

definition mode_value :: "int list \<Rightarrow> int" where
  "mode_value xs =
     (let s = remdups (sort xs)
      in fold (\<lambda>x best. if count_list xs best < count_list xs x then x else best) (tl s) (hd s))"

definition max_value :: "int list \<Rightarrow> int" where
  "max_value xs = fold max (tl xs) (hd xs)"

definition min_value :: "int list \<Rightarrow> int" where
  "min_value xs = fold min (tl xs) (hd xs)"

text \<open>
  \<open>10**(x/10)\<close> on a Python int \<open>x\<close>. The true division \<open>x/10\<close> raises \<open>OverflowError\<close> when
  the quotient rounds to no double, which is when \<open>|x| \<ge> 10 * (2^1024 - 2^970)\<close>; the power
  raises \<open>OverflowError\<close> when it exceeds the largest double \<open>2^1024 - 2^971\<close>, about
  \<open>1.797e308\<close>, whose decimal logarithm is \<open>308.2547\<close>: for an int \<open>x\<close> that is when
  \<open>x \<ge> 3083\<close> (\<open>10**308.2\<close> is the double \<open>1.58e308\<close>, \<open>10**308.3\<close> would be \<open>1.995e308\<close>).
  A power too small for a double is \<open>0.0\<close>, not an exception.
\<close>

definition pow_overflows :: "int \<Rightarrow> bool" where
  "pow_overflows x \<longleftrightarrow> 3083 \<le> x \<or> x \<le> - (10 * (2 ^ 1024 - 2 ^ 970))"

text \<open>
  \<open>np.sum(list(map(lambda x: 10**(x['rssi']/10), sensor_readings)))\<close>, not floored: the
  list of powers is built first, so one value out of range raises before anything is summed.
\<close>

definition tss_value :: "int list \<Rightarrow> error + pyval" where
  "tss_value xs =
     (if list_ex pow_overflows xs then Inl OverflowError
      else Inr (PyFloat (sum_list (map (\<lambda>x. 10 powr (real_of_int x / 10)) xs))))"

text \<open>
  The \<open>if\<close>/\<open>elif\<close> chain on \<open>self._filter_method\<close>, applied to the rssi values of one sensor.
  The floored filters raise on an empty list; \<open>np.sum([])\<close> is \<open>0.0\<close>. The name is tested
  before the values are touched, so an unknown name raises whatever the values are.
\<close>

definition floored :: "int list \<Rightarrow> int \<Rightarrow> error + pyval" where
  "floored xs v = (if xs = [] then Inl EmptyReduction else Inr (PyInt v))"

definition apply_filter :: "string \<Rightarrow> int list \<Rightarrow> error + pyval" where
  "apply_filter fm xs =
     (if fm = ''mean'' then floored xs (mean_floor xs)
      else if fm = ''median'' then floored xs (median_floor xs)
      else if fm = ''mode'' then floored xs (mode_value xs)
      else if fm = ''max'' then floored xs (max_value xs)
      else if fm = ''min'' then floored xs (min_value xs)
      else if fm = ''tss'' then tss_value xs
      else Inl InvalidFilteringType)"

text \<open>The names the chain accepts; \<open>tss\<close> is the code's spelling of the total signal sum.\<close>

definition known_filter :: "string \<Rightarrow> bool" where
  "known_filter fm \<longleftrightarrow> fm \<in> set [''mean'', ''median'', ''mode'', ''max'', ''min'', ''tss'']"

subsection \<open>\<open>check_valid_window\<close>\<close>

text \<open>\<open>list(filter(lambda x: x['mac_sensor'] == sensor_mac, stack))\<close>.\<close>

definition sensor_readings :: "string \<Rightarrow> reading_row list \<Rightarrow> reading_row list" where
  "sensor_readings sensor_mac stack = filter (\<lambda>x. mac_sensor x = sensor_mac) stack"

definition sensor_is_valid :: "engine \<Rightarrow> reading_row list \<Rightarrow> string \<Rightarrow> bool" where
  "sensor_is_valid e stack sensor_mac \<longleftrightarrow>
     min_entries_per_sensor e \<le> int (length (sensor_readings sensor_mac stack))"

text \<open>The counting loop over \<open>self._sensor_mac_list\<close>, with \<open>valid_sensors\<close> as accumulator.\<close>

fun count_valid_sensors :: "engine \<Rightarrow> reading_row list \<Rightarrow> string list \<Rightarrow> int \<Rightarrow> int" where
  "count_valid_sensors e stack [] valid_sensors = valid_sensors"
| "count_valid_sensors e stack (sensor_mac # rest) valid_sensors =
     (if sensor_is_valid e stack sensor_mac
      then count_valid_sensors e stack rest (valid_sensors + 1)
      else count_valid_sensors e stack rest valid_sensors)"

definition check_valid_window :: "engine \<Rightarrow> real \<Rightarrow> bool" where
  "check_valid_window e t =
     (case readings_stack e of
        [] \<Rightarrow> False
      | first # _ \<Rightarrow>
          if \<not> (min_window_size e \<le> t - timestamp first) then False
          else if count_valid_sensors e (readings_stack e) (sensor_mac_list e) 0 < min_valid_sensors e
          then False
          else True)"

subsection \<open>\<open>compose_fingerprint_data\<close>\<close>

text \<open>
  The loop over the sensors with the dict \<open>fingerprint\<close> as accumulator. An exception leaves
  the loop at once: the fingerprint built so far is dropped.
\<close>

fun compose_loop :: "engine \<Rightarrow> reading_row list \<Rightarrow> string list \<Rightarrow> dict \<Rightarrow> error + dict" where
  "compose_loop e stack [] fingerprint = Inr fingerprint"
| "compose_loop e stack (sensor_mac # rest) fingerprint =
     (if sensor_is_valid e stack sensor_mac
      then (case apply_filter (filter_method e) (map rssi (sensor_readings sensor_mac stack)) of
              Inl err \<Rightarrow> Inl err
            | Inr v \<Rightarrow> compose_loop e stack rest (AList.update sensor_mac v fingerprint))
      else compose_loop e stack rest
             (AList.update sensor_mac (PyInt (invalid_sensor_value e)) fingerprint))"

definition compose_fingerprint_data :: "engine \<Rightarrow> reading_row list \<Rightarrow> error + dict" where
  "compose_fingerprint_data e stack = compose_loop e stack (sensor_mac_list e) []"

subsection \<open>\<open>process_reading\<close>\<close>

text \<open>The \<open>while\<close> loop that pops the head while it is older than \<open>max_window_size\<close>.\<close>

fun evict :: "real \<Rightarrow> real \<Rightarrow> reading_row list \<Rightarrow> reading_row list" where
  "evict t max_ws [] = []"
| "evict t max_ws (first # rest) =
     (if max_ws < t - timestamp first then evict t max_ws rest else first # rest)"

text \<open>\<open>{**aggregate_data, **fingerprint}\<close>: the items of the fingerprint written over the extra data.\<close>

definition dict_merge :: "dict \<Rightarrow> dict \<Rightarrow> dict" where
  "dict_merge aggregate_data fingerprint =
     fold (\<lambda>(k, v) d. AList.update k v d) fingerprint aggregate_data"

text \<open>
  The result is \<open>Inr None\<close> for \<open>return None\<close>, \<open>Inr (Some fp)\<close> for a fingerprint and
  \<open>Inl err\<close> for an exception; the second component is the engine after the call.
\<close>

definition process_reading ::
  "engine \<Rightarrow> real \<Rightarrow> string \<Rightarrow> int \<Rightarrow> dict option \<Rightarrow> (error + dict option) \<times> engine" where
  "process_reading e t m r aggregate_data =
     (let reading = \<lparr> timestamp = t, mac_sensor = m, rssi = r \<rparr>;
          e1 = e\<lparr>readings_stack := evict t (max_window_size e) (readings_stack e @ [reading])\<rparr>
      in if \<not> check_valid_window e1 t then (Inr None, e1)
         else
           (let stack = readings_stack e1;
                e2 = e1\<lparr>readings_stack := []\<rparr>
            in case compose_fingerprint_data e2 stack of
                 Inl err \<Rightarrow> (Inl err, e2)
               | Inr fingerprint \<Rightarrow>
                   (let fp1 = AList.update ''timestamp'' (PyFloat t) fingerprint;
                        fp2 = (case aggregate_data of None \<Rightarrow> fp1 | Some a \<Rightarrow> dict_merge a fp1)
                    in (Inr (Some fp2), e2))))"

subsection \<open>Notions used to state the properties\<close>

text \<open>
  The buffer of \<open>process_reading\<close> after the new row is appended and the old rows are
  evicted (the snapshot when the window is valid), and the validity test made on it.
\<close>

definition window_after :: "engine \<Rightarrow> real \<Rightarrow> string \<Rightarrow> int \<Rightarrow> reading_row list" where
  "window_after e t m r =
     evict t (max_window_size e) (readings_stack e @ [\<lparr>timestamp = t, mac_sensor = m, rssi = r\<rparr>])"

definition window_valid :: "engine \<Rightarrow> real \<Rightarrow> string \<Rightarrow> int \<Rightarrow> bool" where
  "window_valid e t m r = check_valid_window (e\<lparr>readings_stack := window_after e t m r\<rparr>) t"

text \<open>What one turn of the loop of \<open>compose_fingerprint_data\<close> assigns to a sensor, or raises.\<close>

definition sensor_value :: "engine \<Rightarrow> reading_row list \<Rightarrow> string \<Rightarrow> error + pyval" where
  "sensor_value e stack s =
     (if sensor_is_valid e stack s
      then apply_filter (filter_method e) (map rssi (sensor_readings s stack))
      else Inr (PyInt (invalid_sensor_value e)))"

text \<open>The last lines of \<open>process_reading\<close>: the timestamp, then the extra data underneath.\<close>

definition finish_fingerprint :: "real \<Rightarrow> dict option \<Rightarrow> dict \<Rightarrow> dict" where
  "finish_fingerprint t aggregate_data fingerprint =
     (let fp1 = AList.update ''timestamp'' (PyFloat t) fingerprint
      in case aggregate_data of None \<Rightarrow> fp1 | Some a \<Rightarrow> dict_merge a fp1)"

text \<open>The fingerprint in which every sensor holds the sentinel.\<close>

definition sentinel_fingerprint :: "engine \<Rightarrow> string list \<Rightarrow> dict \<Rightarrow> dict" where
  "sentinel_fingerprint e ss acc =
     fold (\<lambda>s. AList.update s (PyInt (invalid_sensor_value e))) ss acc"

text \<open>
  A sequence of calls \<open>process_reading(t, m, r, a)\<close> on one engine, each made whatever the
  one before returned or raised; the result is the engine after the last call.
\<close>

definition ingest_all :: "engine \<Rightarrow> (real \<times> string \<times> int \<times> dict option) list \<Rightarrow> engine" where
  "ingest_all e calls = fold (\<lambda>(t, m, r, a) e'. snd (process_reading e' t m r a)) calls e"

text \<open>The buffer is in time order and holds nothing newer than \<open>t\<close>.\<close>

definition buffer_ordered :: "engine \<Rightarrow> real \<Rightarrow> bool" where
  "buffer_ordered e t \<longleftrightarrow>
     sorted (map timestamp (readings_stack e)) \<and>
     (\<forall>row \<in> set (readings_stack e). timestamp row \<le> t)"

text \<open>The extra data handed to \<open>process_reading\<close> is a Python dict: its keys are distinct.\<close>

definition is_dict :: "dict option \<Rightarrow> bool" where
  "is_dict a = (case a of None \<Rightarrow> True | Some d \<Rightarrow> distinct (map fst d))"

text \<open>The engine of the worked example of the specification.\<close>

definition example_engine :: engine where
  "example_engine = init [''A'', ''B''] 1 10 2 2 ''mean'' 100"

text \<open>Three calls of which the last one evicts the first reading.\<close>

definition example_calls :: "(real \<times> string \<times> int \<times> dict option) list" where
  "example_calls = [(0, ''A'', -40, None), (6, ''B'', -50, None), (12, ''A'', -44, None)]"

text \<open>An engine with the \<open>tss\<close> filter and a window with rows of two sensors.\<close>

definition tss_engine :: engine where
  "tss_engine = init [''A'', ''B''] 1 10 2 1 ''tss'' 100"

definition tss_window :: "reading_row list" where
  "tss_window = [\<lparr>timestamp = 0, mac_sensor = ''A'', rssi = -40\<rparr>,
                 \<lparr>timestamp = 0.5, mac_sensor = ''B'', rssi = -70\<rparr>,
                 \<lparr>timestamp = 1, mac_sensor = ''A'', rssi = -40\<rparr>]"

text \<open>A one-sensor engine with no minimal window length, and one with an unknown filter.\<close>

definition single_engine :: engine where
  "single_engine = init [''A''] 0 10 1 1 ''mean'' 100"

definition bogus_engine :: engine where
  "bogus_engine = init [''A''] 1 10 1 1 ''bogus'' 100"

section \<open>Lemmas on the embedding\<close>

lemmas engine_eval =
  init_def process_reading_def check_valid_window_def sensor_is_valid_def sensor_readings_def
  compose_fingerprint_data_def apply_filter_def floored_def mean_floor_def Let_def

subsection \<open>Validity\<close>

lemma sensor_is_valid_stack_update [simp]:
  "sensor_is_valid (e\<lparr>readings_stack := st\<rparr>) = sensor_is_valid e"
  by (simp add: sensor_is_valid_def fun_eq_iff)

lemma count_valid_sensors_acc:
  "count_valid_sensors e stack ss acc = acc + int (length (filter (sensor_is_valid e stack) ss))"
  by (induction ss arbitrary: acc) auto

lemma sensor_is_valid_append:
  "sensor_is_valid e stack s \<Longrightarrow> sensor_is_valid e (stack @ extra) s"
  by (simp add: sensor_is_valid_def sensor_readings_def)

lemma valid_sensors_append:
  "length (filter (sensor_is_valid e stack) ss)
     \<le> length (filter (sensor_is_valid e (stack @ extra)) ss)"
  by (induction ss) (auto dest: sensor_is_valid_append)

lemma check_valid_window_iff:
  "check_valid_window e t \<longleftrightarrow>
     readings_stack e \<noteq> [] \<and> min_window_size e \<le> t - timestamp (hd (readings_stack e)) \<and>
     min_valid_sensors e
       \<le> int (length (filter (sensor_is_valid e (readings_stack e)) (sensor_mac_list e)))"
  by (cases "readings_stack e") (auto simp: check_valid_window_def count_valid_sensors_acc)

lemma some_valid_sensor:
  assumes "check_valid_window e t" and "1 \<le> min_valid_sensors e"
  shows "\<exists>s \<in> set (sensor_mac_list e). sensor_is_valid e (readings_stack e) s"
proof -
  have "filter (sensor_is_valid e (readings_stack e)) (sensor_mac_list e) \<noteq> []"
    using assms by (auto simp: check_valid_window_iff)
  then show ?thesis by (simp add: filter_empty_conv)
qed

subsection \<open>Eviction\<close>

lemma evict_suffix: "\<exists>old. old @ evict t mx stack = stack"
proof (induction stack)
  case Nil
  then show ?case by simp
next
  case (Cons a stack)
  then obtain old where "old @ evict t mx stack = stack" by blast
  then have "(a # old) @ evict t mx stack = a # stack" by simp
  then show ?case
    by (cases "mx < t - timestamp a") (auto intro: exI[of _ "[]"] simp del: append_Cons)
qed

lemma evict_head:
  "evict t mx stack = [] \<or> t - timestamp (hd (evict t mx stack)) \<le> mx"
  by (induction stack) auto

lemma evict_sorted:
  assumes "sorted (map timestamp stack)"
  shows "sorted (map timestamp (evict t mx stack))"
proof -
  obtain old where "old @ evict t mx stack = stack" using evict_suffix by blast
  then have "map timestamp stack = map timestamp old @ map timestamp (evict t mx stack)"
    by (metis map_append)
  with assms show ?thesis by (simp add: sorted_append)
qed

lemma evict_subset: "set (evict t mx stack) \<subseteq> set stack"
  using evict_suffix[of t mx stack] by (metis Un_upper2 set_append)

subsection \<open>Composition\<close>

lemma compose_loop_step:
  "compose_loop e stack (s # rest) acc =
     (case sensor_value e stack s of
        Inl err \<Rightarrow> Inl err
      | Inr v \<Rightarrow> compose_loop e stack rest (AList.update s v acc))"
  by (simp add: sensor_value_def)

lemma compose_stack_update [simp]:
  "compose_loop (e\<lparr>readings_stack := st\<rparr>) stack ss acc = compose_loop e stack ss acc"
  by (induction ss arbitrary: acc) (auto split: sum.splits)

lemma compose_loop_keys:
  "compose_loop e stack ss acc = Inr fp \<Longrightarrow> fst ` set fp = fst ` set acc \<union> set ss"
proof (induction ss arbitrary: acc)
  case Nil
  then show ?case by simp
next
  case (Cons s ss)
  then show ?case
    unfolding compose_loop_step by (auto split: sum.splits simp: dom_update)
qed

lemma compose_loop_distinct:
  "compose_loop e stack ss acc = Inr fp \<Longrightarrow> distinct (map fst acc) \<Longrightarrow> distinct (map fst fp)"
proof (induction ss arbitrary: acc)
  case Nil
  then show ?case by simp
next
  case (Cons s ss)
  then show ?case
    unfolding compose_loop_step by (auto split: sum.splits simp: distinct_update)
qed

lemma compose_loop_lookup:
  "compose_loop e stack ss acc = Inr fp \<Longrightarrow>
     (k \<in> set ss \<longrightarrow> sensor_value e stack k = Inr (the (map_of fp k)) \<and> map_of fp k \<noteq> None) \<and>
     (k \<notin> set ss \<longrightarrow> map_of fp k = map_of acc k)"
proof (induction ss arbitrary: acc)
  case Nil
  then show ?case by simp
next
  case (Cons s ss)
  from Cons.prems obtain v where v: "sensor_value e stack s = Inr v"
    and rest: "compose_loop e stack ss (AList.update s v acc) = Inr fp"
    unfolding compose_loop_step by (auto split: sum.splits)
  from Cons.IH[OF rest] v show ?case
    by (auto simp: update_conv')
qed

lemma compose_loop_total:
  "(\<forall>s \<in> set ss. \<exists>v. sensor_value e stack s = Inr v)
     \<Longrightarrow> \<exists>fp. compose_loop e stack ss acc = Inr fp"
proof (induction ss arbitrary: acc)
  case Nil
  then show ?case by simp
next
  case (Cons s ss)
  then show ?case unfolding compose_loop_step by (auto split: sum.splits)
qed

lemma compose_loop_error:
  "compose_loop e stack ss acc = Inl err \<Longrightarrow> \<exists>s \<in> set ss. sensor_value e stack s = Inl err"
proof (induction ss arbitrary: acc)
  case Nil
  then show ?case by simp
next
  case (Cons s ss)
  then show ?case unfolding compose_loop_step by (auto split: sum.splits)
qed

lemma sensor_value_tss:
  "filter_method e = ''tss'' \<Longrightarrow>
   sensor_value e stack s =
     (if sensor_is_valid e stack s then tss_value (map rssi (sensor_readings s stack))
      else Inr (PyInt (invalid_sensor_value e)))"
  by (simp add: sensor_value_def apply_filter_def)

lemma known_filter_iff:
  "known_filter fm \<longleftrightarrow>
     fm = ''mean'' \<or> fm = ''median'' \<or> fm = ''mode'' \<or> fm = ''max'' \<or> fm = ''min'' \<or> fm = ''tss''"
  by (simp add: known_filter_def)

lemma apply_filter_unknown:
  "\<not> known_filter fm \<Longrightarrow> apply_filter fm xs = Inl InvalidFilteringType"
  by (simp add: known_filter_iff apply_filter_def)

lemma sensor_value_unknown:
  "\<not> known_filter (filter_method e) \<Longrightarrow>
   sensor_value e stack s =
     (if sensor_is_valid e stack s then Inl InvalidFilteringType
      else Inr (PyInt (invalid_sensor_value e)))"
  by (simp add: sensor_value_def apply_filter_unknown)

lemma compose_loop_unknown:
  assumes "\<not> known_filter (filter_method e)"
  shows "compose_loop e stack ss acc =
     (if \<exists>s \<in> set ss. sensor_is_valid e stack s then Inl InvalidFilteringType
      else Inr (sentinel_fingerprint e ss acc))"
proof (induction ss arbitrary: acc)
  case Nil
  then show ?case by (simp add: sentinel_fingerprint_def)
next
  case (Cons s ss)
  then show ?case
    unfolding compose_loop_step sensor_value_unknown[OF assms]
    by (simp add: sentinel_fingerprint_def)
qed

subsection \<open>Dicts\<close>

lemma dict_merge_lookup:
  "distinct (map fst f) \<Longrightarrow> map_of (dict_merge a f) = map_of a ++ map_of f"
  unfolding dict_merge_def
proof (induction f arbitrary: a)
  case Nil
  then show ?case by simp
next
  case (Cons kv f)
  obtain k v where kv: "kv = (k, v)" by (cases kv)
  have "k \<notin> fst ` set f" and d: "distinct (map fst f)"
    using Cons.prems by (auto simp: kv)
  then have none: "map_of f k = None"
    by (simp add: map_of_eq_None_iff)
  have "map_of (fold (\<lambda>(k, v). AList.update k v) f (AList.update k v a)) =
        (map_of a)(k \<mapsto> v) ++ map_of f"
    using Cons.IH[OF d, of "AList.update k v a"] by (simp only: update_conv')
  also have "\<dots> = map_of a ++ map_of ((k, v) # f)"
    using none by (auto simp: map_add_def fun_eq_iff split: option.splits)
  finally have fin: "map_of (fold (\<lambda>(k, v). AList.update k v) f (AList.update k v a)) =
        map_of a ++ map_of ((k, v) # f)" .
  show ?case unfolding kv by (simp only: fold_simps comp_apply case_prod_conv fin)
qed

lemma dict_merge_distinct:
  "distinct (map fst a) \<Longrightarrow> distinct (map fst (dict_merge a f))"
  unfolding dict_merge_def
  by (induction f arbitrary: a) (auto simp: distinct_update)

lemma dict_merge_keys:
  "fst ` set (dict_merge a f) = fst ` set a \<union> fst ` set f"
  unfolding dict_merge_def
proof (induction f arbitrary: a)
  case Nil
  then show ?case by simp
next
  case (Cons kv f)
  obtain k v where kv: "kv = (k, v)" by (cases kv)
  have "fst ` set (fold (\<lambda>(k, v). AList.update k v) f (AList.update k v a)) =
        fst ` set (AList.update k v a) \<union> fst ` set f"
    by (rule Cons.IH)
  also have "\<dots> = fst ` set a \<union> fst ` set ((k, v) # f)"
    by (simp add: dom_update)
  finally show ?case by (simp add: kv)
qed

lemma one_entry:
  "distinct (map fst d) \<Longrightarrow> k \<in> fst ` set d \<Longrightarrow> length (filter (\<lambda>kv. fst kv = k) d) = 1"
proof (induction d)
  case Nil
  then show ?case by simp
next
  case (Cons a d)
  show ?case
  proof (cases "fst a = k")
    case True
    then have "k \<notin> fst ` set d"
      using Cons.prems(1) by simp
    then have "\<forall>kv \<in> set d. fst kv \<noteq> k"
      by (metis imageI)
    then have "filter (\<lambda>kv. fst kv = k) d = []"
      by (simp add: filter_empty_conv)
    with True show ?thesis by simp
  next
    case False
    with Cons show ?thesis by auto
  qed
qed

lemma fp_keys:
  "fst ` set (finish_fingerprint t a fp) =
     (case a of None \<Rightarrow> {} | Some d \<Rightarrow> fst ` set d) \<union> insert ''timestamp'' (fst ` set fp)"
  by (auto simp: finish_fingerprint_def Let_def dict_merge_keys dom_update split: option.splits)

lemma finish_distinct:
  assumes "distinct (map fst fp)" and "is_dict a"
  shows "distinct (map fst (finish_fingerprint t a fp))"
  using assms
  by (auto simp: finish_fingerprint_def is_dict_def Let_def distinct_update dict_merge_distinct
      split: option.splits)

lemma finish_lookup:
  assumes "distinct (map fst fp)"
  shows "map_of (finish_fingerprint t a fp) k =
     (if k = ''timestamp'' then Some (PyFloat t)
      else case map_of fp k of
             Some v \<Rightarrow> Some v
           | None \<Rightarrow> (case a of None \<Rightarrow> None | Some d \<Rightarrow> map_of d k))"
proof -
  have d: "distinct (map fst (AList.update ''timestamp'' (PyFloat t) fp))"
    using assms by (simp add: distinct_update)
  show ?thesis
    by (auto simp: finish_fingerprint_def Let_def dict_merge_lookup[OF d] update_conv' map_add_def
        split: option.splits)
qed

subsection \<open>One call of \<open>process_reading\<close>\<close>

lemma process_reading_cases:
  "process_reading e t m r a =
     (if \<not> window_valid e t m r then (Inr None, e\<lparr>readings_stack := window_after e t m r\<rparr>)
      else case compose_fingerprint_data e (window_after e t m r) of
             Inl err \<Rightarrow> (Inl err, e\<lparr>readings_stack := []\<rparr>)
           | Inr fp \<Rightarrow> (Inr (Some (finish_fingerprint t a fp)), e\<lparr>readings_stack := []\<rparr>))"
  by (simp add: process_reading_def window_valid_def window_after_def compose_fingerprint_data_def
      finish_fingerprint_def Let_def split: sum.splits)

lemma process_reading_Some:
  assumes "process_reading e t m r a = (Inr (Some result), e')"
  shows "\<exists>fp. compose_fingerprint_data e (window_after e t m r) = Inr fp \<and>
              result = finish_fingerprint t a fp \<and> e' = e\<lparr>readings_stack := []\<rparr> \<and>
              window_valid e t m r"
  using assms by (auto simp: process_reading_cases split: if_splits sum.splits)

lemma process_reading_max_window:
  "max_window_size (snd (process_reading e t m r a)) = max_window_size e"
  by (simp add: process_reading_cases split: sum.splits)

lemma process_reading_head_bound:
  "readings_stack (snd (process_reading e t m r a)) = [] \<or>
   t - timestamp (hd (readings_stack (snd (process_reading e t m r a)))) \<le> max_window_size e"
  using evict_head[of t "max_window_size e"
      "readings_stack e @ [\<lparr>timestamp = t, mac_sensor = m, rssi = r\<rparr>]"]
  by (auto simp: process_reading_cases window_after_def split: sum.splits)

lemma process_reading_ordered:
  assumes "buffer_ordered e t0" and "t0 \<le> t"
  shows "buffer_ordered (snd (process_reading e t m r a)) t"
proof -
  let ?row = "\<lparr>timestamp = t, mac_sensor = m, rssi = r\<rparr>"
  let ?new = "readings_stack e @ [?row]"
  have srt: "sorted (map timestamp ?new)"
    using assms by (auto simp: buffer_ordered_def sorted_append)
  have le: "\<forall>row \<in> set ?new. timestamp row \<le> t"
    using assms by (auto simp: buffer_ordered_def)
  have "buffer_ordered (e\<lparr>readings_stack := window_after e t m r\<rparr>) t"
    using evict_sorted[OF srt, of t "max_window_size e"]
      evict_subset[of t "max_window_size e" ?new] le
    by (auto simp: buffer_ordered_def window_after_def)
  moreover have "buffer_ordered (e\<lparr>readings_stack := []\<rparr>) t"
    by (simp add: buffer_ordered_def)
  ultimately show ?thesis
    by (auto simp: process_reading_cases split: sum.splits)
qed

subsection \<open>Sequences of calls\<close>

lemma ingest_all_max_window: "max_window_size (ingest_all e calls) = max_window_size e"
  unfolding ingest_all_def
  by (induction calls arbitrary: e) (auto simp: process_reading_max_window)

lemma ingest_all_snoc:
  "ingest_all e (calls @ [(t, m, r, a)]) = snd (process_reading (ingest_all e calls) t m r a)"
  by (simp add: ingest_all_def)

lemma ingest_all_ordered:
  assumes "sorted (map fst calls)" and "calls \<noteq> []"
  shows "buffer_ordered (ingest_all (init ss mn mx me ms fm iv) calls) (fst (last calls))"
  using assms
proof (induction calls rule: rev_induct)
  case Nil
  then show ?case by simp
next
  case (snoc c calls)
  obtain t m r a where c: "c = (t, m, r, a)" by (cases c)
  have ord: "\<exists>t0 \<le> t. buffer_ordered (ingest_all (init ss mn mx me ms fm iv) calls) t0"
  proof (cases "calls = []")
    case True
    then show ?thesis by (auto simp: ingest_all_def init_def buffer_ordered_def)
  next
    case False
    then have "fst (last calls) \<le> t"
      using snoc.prems(1) c by (auto simp: sorted_append)
    moreover have "sorted (map fst calls)"
      using snoc.prems(1) by (simp add: sorted_append)
    ultimately show ?thesis using snoc.IH False by blast
  qed
  then show ?case
    using process_reading_ordered by (auto simp: c ingest_all_snoc)
qed

section \<open>Properties\<close>

text \<open>
  C1. Calls of \<open>process_reading\<close> with non-decreasing timestamps are made on a new engine.
  Immediately after each call (the \<open>n\<close>-th one, for every \<open>n\<close>) the buffer is empty, or its
  head holds the oldest buffered timestamp and the timestamp just ingested minus that
  oldest timestamp is at most \<open>max_window_size\<close>. Only the timestamps of the calls enter.
\<close>

theorem eviction_invariant:
  assumes "sorted (map fst calls)" and "0 < n" and "n \<le> length calls"
  shows "(let stack = readings_stack (ingest_all (init ss mn mx me ms fm iv) (take n calls));
              latest = fst (calls ! (n - 1))
          in stack = [] \<or>
             (timestamp (hd stack) = Min (timestamp ` set stack) \<and>
              latest - Min (timestamp ` set stack) \<le> mx))"
proof -
  let ?fresh = "init ss mn mx me ms fm iv"
  obtain t m r a where c: "calls ! (n - 1) = (t, m, r, a)"
    by (cases "calls ! (n - 1)")
  have lt: "n - 1 < length calls" using assms(2,3) by simp
  have sn: "Suc (n - 1) = n" using assms(2) by simp
  have tk: "take n calls = take (n - 1) calls @ [(t, m, r, a)]"
    using take_Suc_conv_app_nth[OF lt] unfolding sn c .
  let ?e = "ingest_all ?fresh (take (n - 1) calls)"
  let ?stack = "readings_stack (ingest_all ?fresh (take n calls))"
  have stack: "?stack = readings_stack (snd (process_reading ?e t m r a))"
    by (simp add: tk ingest_all_snoc)
  have "sorted (map fst (take n calls))"
    using assms(1) by (simp add: take_map[symmetric])
  moreover have "take n calls \<noteq> []"
    using assms(2,3) by auto
  ultimately have "buffer_ordered (ingest_all ?fresh (take n calls)) (fst (last (take n calls)))"
    by (rule ingest_all_ordered)
  then have srt: "sorted (map timestamp ?stack)"
    by (simp add: buffer_ordered_def)
  have mx: "max_window_size ?e = mx"
    by (simp add: ingest_all_max_window init_def)
  have bound: "?stack = [] \<or> t - timestamp (hd ?stack) \<le> mx"
    using process_reading_head_bound[of ?e t m r a] unfolding mx stack[symmetric] .
  show ?thesis
  proof (cases "?stack = []")
    case True
    then show ?thesis by simp
  next
    case False
    have "\<forall>row \<in> set ?stack. timestamp (hd ?stack) \<le> timestamp row"
      using srt False by (cases ?stack) auto
    then have "Min (timestamp ` set ?stack) = timestamp (hd ?stack)"
      using False by (intro Min_eqI) auto
    then show ?thesis
      using bound False c by simp
  qed
qed

theorem eviction_invariant_witness:
  "sorted (map fst example_calls) \<and> (0::nat) < 3 \<and> 3 \<le> length example_calls \<and>
   fst (example_calls ! (3 - 1)) = 12 \<and>
   readings_stack (ingest_all example_engine (take 3 example_calls)) =
     [\<lparr>timestamp = 6, mac_sensor = ''B'', rssi = -50\<rparr>,
      \<lparr>timestamp = 12, mac_sensor = ''A'', rssi = -44\<rparr>] \<and>
   12 - Min (timestamp ` set [\<lparr>timestamp = 6, mac_sensor = ''B'', rssi = -50\<rparr>,
                               \<lparr>timestamp = 12, mac_sensor = ''A'', rssi = -44\<rparr>]) \<le> (10::real)"
proof -
  have h1: "sorted (map fst example_calls)" by (simp add: example_calls_def)
  have h2: "(0::nat) < 3" by simp
  have h3: "3 \<le> length example_calls" by (simp add: example_calls_def)
  have latest: "fst (example_calls ! (3 - 1)) = 12" by (simp add: example_calls_def)
  have stack: "readings_stack (ingest_all example_engine (take 3 example_calls)) =
     [\<lparr>timestamp = 6, mac_sensor = ''B'', rssi = -50\<rparr>,
      \<lparr>timestamp = 12, mac_sensor = ''A'', rssi = -44\<rparr>]"
    by (simp add: example_calls_def example_engine_def ingest_all_def engine_eval)
  have bound: "12 - Min (timestamp ` set [\<lparr>timestamp = 6, mac_sensor = ''B'', rssi = -50\<rparr>,
                               \<lparr>timestamp = 12, mac_sensor = ''A'', rssi = -44\<rparr>]) \<le> (10::real)"
    using eviction_invariant[OF h1 h2 h3, of "[''A'', ''B'']" 1 10 2 2 "''mean''" 100]
    unfolding Let_def example_engine_def[symmetric] by (simp only: latest stack) simp
  show ?thesis
    using h1 h2 h3 latest stack bound by (intro conjI)
qed

text \<open>
  C2. With sensors A and B, two entries per sensor, two valid sensors, a minimal window of
  1 and a maximal window of 10 seconds, the \<open>mean\<close> filter and the sentinel 100, the calls
  (0, A, -40), (0.2, B, -50), (0.5, A, -44) return \<open>None\<close> and the call (1.0, B, -52) returns
  the fingerprint \<open>{A: -42, B: -51, timestamp: 1.0}\<close> and leaves the buffer empty.
\<close>

theorem reduction_example:
  "(let e0 = example_engine;
        (r1, e1) = process_reading e0 0 ''A'' (-40) None;
        (r2, e2) = process_reading e1 0.2 ''B'' (-50) None;
        (r3, e3) = process_reading e2 0.5 ''A'' (-44) None;
        (r4, e4) = process_reading e3 1.0 ''B'' (-52) None
    in r1 = Inr None \<and> r2 = Inr None \<and> r3 = Inr None \<and>
       r4 = Inr (Some [(''A'', PyInt (-42)), (''B'', PyInt (-51)), (''timestamp'', PyFloat 1.0)]) \<and>
       readings_stack e4 = [])"
  by (simp add: example_engine_def engine_eval)

text \<open>
  C3. Whatever the engine and the call: when \<open>process_reading\<close> returns a fingerprint, the
  buffer is empty after the call.
\<close>

theorem emitted_window_consumed:
  "process_reading e t m r a = (Inr (Some fp), e') \<Longrightarrow> readings_stack e' = []"
  by (auto simp: process_reading_cases split: if_splits sum.splits)

theorem emitted_window_consumed_witness:
  "process_reading
     (single_engine\<lparr>readings_stack := [\<lparr>timestamp = 4, mac_sensor = ''A'', rssi = -43\<rparr>]\<rparr>)
     5 ''A'' (-40) None =
     (Inr (Some [(''A'', PyInt (-42)), (''timestamp'', PyFloat 5)]), single_engine) \<and>
   readings_stack single_engine = []"
proof -
  have call: "process_reading
     (single_engine\<lparr>readings_stack := [\<lparr>timestamp = 4, mac_sensor = ''A'', rssi = -43\<rparr>]\<rparr>)
     5 ''A'' (-40) None =
     (Inr (Some [(''A'', PyInt (-42)), (''timestamp'', PyFloat 5)]), single_engine)"
    by (simp add: single_engine_def engine_eval)
  from emitted_window_consumed[OF call] call show ?thesis by simp
qed

text \<open>
  C4 (amended). With the filter \<open>tss\<close> (the total signal sum), let a configured sensor have at
  least \<open>min_entries_per_sensor\<close> matched rows, the matched rows being the rows of the
  snapshot whose \<open>mac_sensor\<close> is that sensor. If every \<open>rssi\<close> of the snapshot is in the range
  where \<open>10**(rssi/10)\<close> is a double, composition returns. Whenever composition returns, the
  sensor is assigned the sum of \<open>10 ** (rssi / 10)\<close> over its matched rows and over no other
  row, as a float, without a floor; two matched rows with the same value \<open>X\<close> give
  \<open>2 * 10 ** (X / 10)\<close>. If a matched row of the sensor is out of that range, composition
  raises \<open>OverflowError\<close> and assigns nothing.
\<close>

theorem total_signal_sum_unfloored:
  assumes "filter_method e = ''tss''"
    and "s \<in> set (sensor_mac_list e)"
    and "min_entries_per_sensor e \<le> int (length [x \<leftarrow> stack. mac_sensor x = s])"
  shows "(list_all (\<lambda>row. \<not> pow_overflows (rssi row)) stack \<longrightarrow>
            (\<exists>fp. compose_fingerprint_data e stack = Inr fp)) \<and>
         (\<forall>fp. compose_fingerprint_data e stack = Inr fp \<longrightarrow>
            map_of fp s =
              Some (PyFloat (\<Sum>x \<leftarrow> [x \<leftarrow> stack. mac_sensor x = s].
                               10 powr (real_of_int (rssi x) / 10))) \<and>
            (\<forall>X. map rssi [x \<leftarrow> stack. mac_sensor x = s] = [X, X] \<longrightarrow>
                 map_of fp s = Some (PyFloat (2 * 10 powr (real_of_int X / 10))))) \<and>
         (list_ex (\<lambda>row. mac_sensor row = s \<and> pow_overflows (rssi row)) stack \<longrightarrow>
            compose_fingerprint_data e stack = Inl OverflowError)"
proof -
  let ?matched = "[x \<leftarrow> stack. mac_sensor x = s]"
  have valid: "sensor_is_valid e stack s"
    using assms(3) by (simp add: sensor_is_valid_def sensor_readings_def)
  have sv: "sensor_value e stack s = tss_value (map rssi ?matched)"
    using valid assms(1) by (simp add: sensor_value_tss sensor_readings_def)
  have returns: "\<exists>fp. compose_fingerprint_data e stack = Inr fp"
    if range: "list_all (\<lambda>row. \<not> pow_overflows (rssi row)) stack"
  proof -
    have "\<not> list_ex pow_overflows (map rssi (sensor_readings k stack))" for k
      using range by (auto simp: list_all_iff list_ex_iff sensor_readings_def)
    then have "\<forall>k \<in> set (sensor_mac_list e). \<exists>v. sensor_value e stack k = Inr v"
      using assms(1) by (simp add: sensor_value_tss tss_value_def)
    then show ?thesis
      unfolding compose_fingerprint_data_def using compose_loop_total by blast
  qed
  have assigned: "map_of fp s =
              Some (PyFloat (\<Sum>x \<leftarrow> ?matched. 10 powr (real_of_int (rssi x) / 10))) \<and>
            (\<forall>X. map rssi ?matched = [X, X] \<longrightarrow>
                 map_of fp s = Some (PyFloat (2 * 10 powr (real_of_int X / 10))))"
    if fp: "compose_fingerprint_data e stack = Inr fp" for fp
  proof -
    have loop: "compose_loop e stack (sensor_mac_list e) [] = Inr fp"
      using fp by (simp add: compose_fingerprint_data_def)
    have "sensor_value e stack s = Inr (the (map_of fp s))" and some: "map_of fp s \<noteq> None"
      using compose_loop_lookup[OF loop, of s] assms(2) by auto
    then have "tss_value (map rssi ?matched) = Inr (the (map_of fp s))"
      by (simp add: sv)
    then have look: "map_of fp s =
        Some (PyFloat (sum_list (map (\<lambda>x. 10 powr (real_of_int x / 10)) (map rssi ?matched))))"
      using some by (auto simp: tss_value_def split: if_splits)
    then have sum: "map_of fp s =
        Some (PyFloat (\<Sum>x \<leftarrow> ?matched. 10 powr (real_of_int (rssi x) / 10)))"
      by (simp add: comp_def)
    have "map_of fp s = Some (PyFloat (2 * 10 powr (real_of_int X / 10)))"
      if "map rssi ?matched = [X, X]" for X
      using look that by simp
    with sum show ?thesis by blast
  qed
  have raises: "compose_fingerprint_data e stack = Inl OverflowError"
    if ex: "list_ex (\<lambda>row. mac_sensor row = s \<and> pow_overflows (rssi row)) stack"
  proof -
    have "list_ex pow_overflows (map rssi ?matched)"
      using ex by (auto simp: list_ex_iff)
    then have bad: "sensor_value e stack s = Inl OverflowError"
      by (simp add: sv tss_value_def)
    show ?thesis
    proof (cases "compose_loop e stack (sensor_mac_list e) []")
      case (Inl err)
      then obtain k where "sensor_value e stack k = Inl err"
        using compose_loop_error by blast
      then have "err = OverflowError"
        using assms(1) by (auto simp: sensor_value_tss tss_value_def split: if_splits)
      with Inl show ?thesis by (simp add: compose_fingerprint_data_def)
    next
      case (Inr fp)
      then have "sensor_value e stack s = Inr (the (map_of fp s))"
        using compose_loop_lookup[OF Inr, of s] assms(2) by auto
      with bad show ?thesis by simp
    qed
  qed
  show ?thesis
    using returns assigned raises by blast
qed

theorem total_signal_sum_unfloored_witness:
  "filter_method tss_engine = ''tss'' \<and>
   ''A'' \<in> set (sensor_mac_list tss_engine) \<and>
   min_entries_per_sensor tss_engine \<le> int (length [x \<leftarrow> tss_window. mac_sensor x = ''A'']) \<and>
   list_all (\<lambda>row. \<not> pow_overflows (rssi row)) tss_window \<and>
   map rssi [x \<leftarrow> tss_window. mac_sensor x = ''A''] = [-40, -40] \<and>
   compose_fingerprint_data tss_engine tss_window =
     Inr [(''A'', PyFloat (2 * 10 powr (-4))), (''B'', PyInt 100)]"
proof -
  have h1: "filter_method tss_engine = ''tss''" by (simp add: tss_engine_def init_def)
  have h2: "''A'' \<in> set (sensor_mac_list tss_engine)" by (simp add: tss_engine_def init_def)
  have h3: "min_entries_per_sensor tss_engine
              \<le> int (length [x \<leftarrow> tss_window. mac_sensor x = ''A''])"
    by (simp add: tss_engine_def tss_window_def init_def)
  have range: "list_all (\<lambda>row. \<not> pow_overflows (rssi row)) tss_window"
    by (simp add: tss_window_def pow_overflows_def)
  have matched: "map rssi [x \<leftarrow> tss_window. mac_sensor x = ''A''] = [-40, -40]"
    by (simp add: tss_window_def)
  note inst = total_signal_sum_unfloored[OF h1 h2 h3]
  from inst range obtain fp where fp: "compose_fingerprint_data tss_engine tss_window = Inr fp"
    by blast
  note assigned = inst[THEN conjunct2, THEN conjunct1, rule_format, OF fp]
  from assigned[THEN conjunct2, rule_format, OF matched]
  have a: "map_of fp ''A'' = Some (PyFloat (2 * 10 powr (-4)))"
    by simp
  have "\<exists>v. compose_fingerprint_data tss_engine tss_window = Inr [(''A'', v), (''B'', PyInt 100)]"
    by (simp add: tss_engine_def tss_window_def tss_value_def pow_overflows_def engine_eval)
  then obtain v where v: "compose_fingerprint_data tss_engine tss_window
      = Inr [(''A'', v), (''B'', PyInt 100)]"
    by blast
  with fp a have "v = PyFloat (2 * 10 powr (-4))" by auto
  with v have "compose_fingerprint_data tss_engine tss_window =
     Inr [(''A'', PyFloat (2 * 10 powr (-4))), (''B'', PyInt 100)]"
    by simp
  with h1 h2 h3 range matched show ?thesis by (intro conjI)
qed

text \<open>
  C4 as stated fails for a signal value whose power is no double: sensor A has its two
  required rows, both with the value 3090, and composition raises \<open>OverflowError\<close> instead of
  assigning \<open>2 * 10 ** 309\<close>.
\<close>

theorem total_signal_sum_counterexample:
  "filter_method tss_engine = ''tss'' \<and>
   ''A'' \<in> set (sensor_mac_list tss_engine) \<and>
   min_entries_per_sensor tss_engine
     \<le> int (length [x \<leftarrow> [\<lparr>timestamp = 0, mac_sensor = ''A'', rssi = 3090\<rparr>,
                           \<lparr>timestamp = 1, mac_sensor = ''A'', rssi = 3090\<rparr>]. mac_sensor x = ''A'']) \<and>
   compose_fingerprint_data tss_engine
       [\<lparr>timestamp = 0, mac_sensor = ''A'', rssi = 3090\<rparr>,
        \<lparr>timestamp = 1, mac_sensor = ''A'', rssi = 3090\<rparr>] = Inl OverflowError"
  by (simp add: tss_engine_def tss_value_def pow_overflows_def engine_eval)

text \<open>
  The behaviour of the code for a filter name that is none of \<open>mean\<close>, \<open>median\<close>, \<open>mode\<close>,
  \<open>max\<close>, \<open>min\<close>, \<open>tss\<close>, in full. The constructor returns an engine with that name and an
  empty buffer. A call of \<open>process_reading\<close> whose window is not valid returns \<open>None\<close>:
  nothing is raised before composition. A call whose window is valid raises the error and
  returns no fingerprint when some configured sensor has at least \<open>min_entries_per_sensor\<close>
  matched rows in the snapshot, which is always so when \<open>min_valid_sensors\<close> is at least 1;
  when no configured sensor has, it returns the fingerprint of sentinels.
\<close>

theorem unknown_filter_behaviour:
  assumes "\<not> known_filter fm"
  shows "filter_method (init ss mn mx me ms fm iv) = fm \<and>
         readings_stack (init ss mn mx me ms fm iv) = [] \<and>
         (filter_method e = fm \<longrightarrow>
            process_reading e t m r a =
              (if \<not> window_valid e t m r
               then (Inr None, e\<lparr>readings_stack := window_after e t m r\<rparr>)
               else if \<exists>s \<in> set (sensor_mac_list e). sensor_is_valid e (window_after e t m r) s
               then (Inl InvalidFilteringType, e\<lparr>readings_stack := []\<rparr>)
               else (Inr (Some (finish_fingerprint t a
                       (sentinel_fingerprint e (sensor_mac_list e) []))),
                     e\<lparr>readings_stack := []\<rparr>))) \<and>
         (filter_method e = fm \<and> window_valid e t m r \<and> 1 \<le> min_valid_sensors e \<longrightarrow>
            process_reading e t m r a = (Inl InvalidFilteringType, e\<lparr>readings_stack := []\<rparr>))"
proof -
  have cases: "process_reading e t m r a =
              (if \<not> window_valid e t m r
               then (Inr None, e\<lparr>readings_stack := window_after e t m r\<rparr>)
               else if \<exists>s \<in> set (sensor_mac_list e). sensor_is_valid e (window_after e t m r) s
               then (Inl InvalidFilteringType, e\<lparr>readings_stack := []\<rparr>)
               else (Inr (Some (finish_fingerprint t a
                       (sentinel_fingerprint e (sensor_mac_list e) []))),
                     e\<lparr>readings_stack := []\<rparr>))"
    if "filter_method e = fm"
    using that assms
    by (simp add: process_reading_cases compose_fingerprint_data_def compose_loop_unknown)
  have "\<exists>s \<in> set (sensor_mac_list e). sensor_is_valid e (window_after e t m r) s"
    if "window_valid e t m r" "1 \<le> min_valid_sensors e"
    using some_valid_sensor[of "e\<lparr>readings_stack := window_after e t m r\<rparr>" t] that
    by (simp add: window_valid_def)
  with cases have raises:
    "process_reading e t m r a = (Inl InvalidFilteringType, e\<lparr>readings_stack := []\<rparr>)"
    if "filter_method e = fm" "window_valid e t m r" "1 \<le> min_valid_sensors e"
    using that by simp
  show ?thesis
    using cases raises by (simp add: init_def)
qed

theorem unknown_filter_behaviour_witness:
  "\<not> known_filter ''bogus'' \<and>
   filter_method (bogus_engine\<lparr>readings_stack := [\<lparr>timestamp = 0, mac_sensor = ''A'', rssi = -40\<rparr>]\<rparr>)
     = ''bogus'' \<and>
   window_valid (bogus_engine\<lparr>readings_stack := [\<lparr>timestamp = 0, mac_sensor = ''A'', rssi = -40\<rparr>]\<rparr>)
     1 ''A'' (-42) \<and>
   1 \<le> min_valid_sensors
         (bogus_engine\<lparr>readings_stack := [\<lparr>timestamp = 0, mac_sensor = ''A'', rssi = -40\<rparr>]\<rparr>) \<and>
   process_reading
       (bogus_engine\<lparr>readings_stack := [\<lparr>timestamp = 0, mac_sensor = ''A'', rssi = -40\<rparr>]\<rparr>)
       1 ''A'' (-42) None = (Inl InvalidFilteringType, bogus_engine)"
proof -
  let ?e = "bogus_engine\<lparr>readings_stack := [\<lparr>timestamp = 0, mac_sensor = ''A'', rssi = -40\<rparr>]\<rparr>"
  have h0: "\<not> known_filter ''bogus''" by (simp add: known_filter_def)
  have h1: "filter_method ?e = ''bogus''" by (simp add: bogus_engine_def init_def)
  have h2: "window_valid ?e 1 ''A'' (-42)"
    by (simp add: window_valid_def window_after_def bogus_engine_def engine_eval)
  have h3: "1 \<le> min_valid_sensors ?e" by (simp add: bogus_engine_def init_def)
  have reset: "?e\<lparr>readings_stack := []\<rparr> = bogus_engine"
    by (simp add: bogus_engine_def init_def)
  note inst = unknown_filter_behaviour[OF h0, of "[]" 0 0 0 0 0 ?e 1 "''A''" "-42" None]
  have call: "process_reading ?e 1 ''A'' (-42) None = (Inl InvalidFilteringType, bogus_engine)"
    using inst h1 h2 h3 unfolding reset by blast
  show ?thesis
    using h0 h1 h2 h3 call by (intro conjI)
qed

text \<open>
  C5. For a filter name outside the enumerated set, construction succeeds and every call
  that reaches fingerprint composition raises the error of \<open>compose_fingerprint_data\<close>,
  whose docstring promises it (\<open>Raises: Exception: If an invalid filtering type is
  specified\<close>). The code misses a case. The \<open>raise\<close> is the last branch of the chain inside
  \<open>if len(sensor_readings) >= self._min_entries_per_sensor\<close>, so it is reached only for a
  sensor with enough rows. With \<open>min_valid_sensors = 0\<close> a window is valid in which no
  configured sensor has enough rows: the call below reaches composition with the unknown
  name \<open>bogus\<close> and returns the fingerprint of sentinels instead of raising.
\<close>

theorem unknown_filter_no_raise:
  "\<not> known_filter ''bogus'' \<and>
   window_valid (init [''A''] 0 10 1 0 ''bogus'' 100) 0 ''B'' (-40) \<and>
   process_reading (init [''A''] 0 10 1 0 ''bogus'' 100) 0 ''B'' (-40) None =
     (Inr (Some [(''A'', PyInt 100), (''timestamp'', PyFloat 0)]),
      init [''A''] 0 10 1 0 ''bogus'' 100)"
  by (simp add: known_filter_def window_valid_def window_after_def engine_eval)

text \<open>
  C6 (amended). A fingerprint returned by \<open>process_reading\<close> (the extra data being a dict)
  has exactly one entry for each configured sensor id. For a sensor id other than the key
  \<open>timestamp\<close> the entry is the reduced value when the sensor has at least
  \<open>min_entries_per_sensor\<close> matched rows in the snapshot, and the sentinel otherwise. The
  entry of the key \<open>timestamp\<close> is the timestamp of the call, also when \<open>timestamp\<close> is a
  configured sensor id.
\<close>

theorem sensor_completeness:
  assumes "process_reading e t m r a = (Inr (Some fp), e')"
    and "is_dict a"
    and "s \<in> set (sensor_mac_list e)"
  shows "length (filter (\<lambda>kv. fst kv = s) fp) = 1 \<and>
         (s \<noteq> ''timestamp'' \<longrightarrow>
            map_of fp s =
              (if min_entries_per_sensor e \<le> int (length (sensor_readings s (window_after e t m r)))
               then (case apply_filter (filter_method e)
                            (map rssi (sensor_readings s (window_after e t m r))) of
                       Inr v \<Rightarrow> Some v | Inl err \<Rightarrow> None)
               else Some (PyInt (invalid_sensor_value e))) \<and>
            map_of fp s \<noteq> None) \<and>
         (s = ''timestamp'' \<longrightarrow> map_of fp s = Some (PyFloat t))"
proof -
  from process_reading_Some[OF assms(1)] obtain fp0 where
    fp0: "compose_loop e (window_after e t m r) (sensor_mac_list e) [] = Inr fp0"
    and fp: "fp = finish_fingerprint t a fp0"
    by (auto simp: compose_fingerprint_data_def)
  have d0: "distinct (map fst fp0)"
    using compose_loop_distinct[OF fp0] by simp
  have "distinct (map fst fp)"
    unfolding fp using d0 assms(2) by (rule finish_distinct)
  moreover have "s \<in> fst ` set fp"
    using compose_loop_keys[OF fp0] assms(3) by (simp add: fp fp_keys)
  ultimately have one: "length (filter (\<lambda>kv. fst kv = s) fp) = 1"
    by (rule one_entry)
  have sv: "sensor_value e (window_after e t m r) s = Inr (the (map_of fp0 s))"
    and some: "map_of fp0 s \<noteq> None"
    using compose_loop_lookup[OF fp0, of s] assms(3) by auto
  have look: "map_of fp s = (if s = ''timestamp'' then Some (PyFloat t) else map_of fp0 s)"
    using some by (auto simp: fp finish_lookup[OF d0])
  show ?thesis
    using one sv some look
    by (auto simp: sensor_value_def sensor_is_valid_def split: if_splits sum.splits)
qed

theorem sensor_completeness_witness:
  "process_reading
     (example_engine\<lparr>readings_stack := [\<lparr>timestamp = 0, mac_sensor = ''A'', rssi = -43\<rparr>,
                                          \<lparr>timestamp = 1, mac_sensor = ''B'', rssi = -50\<rparr>,
                                          \<lparr>timestamp = 2, mac_sensor = ''B'', rssi = -54\<rparr>],
                     min_valid_sensors := 1\<rparr>)
     5 ''B'' (-40) (Some [(''A'', PyStr ''x''), (''room'', PyInt 7)]) =
     (Inr (Some [(''A'', PyInt 100), (''room'', PyInt 7), (''B'', PyInt (-48)),
                 (''timestamp'', PyFloat 5)]),
      example_engine\<lparr>min_valid_sensors := 1\<rparr>) \<and>
   is_dict (Some [(''A'', PyStr ''x''), (''room'', PyInt 7)]) \<and>
   ''A'' \<in> set (sensor_mac_list (example_engine\<lparr>min_valid_sensors := 1\<rparr>)) \<and>
   length (filter (\<lambda>kv. fst kv = ''A'')
       [(''A'', PyInt 100), (''room'', PyInt 7), (''B'', PyInt (-48)), (''timestamp'', PyFloat 5)]) = 1"
proof -
  let ?e = "example_engine\<lparr>readings_stack := [\<lparr>timestamp = 0, mac_sensor = ''A'', rssi = -43\<rparr>,
                                          \<lparr>timestamp = 1, mac_sensor = ''B'', rssi = -50\<rparr>,
                                          \<lparr>timestamp = 2, mac_sensor = ''B'', rssi = -54\<rparr>],
                     min_valid_sensors := 1\<rparr>"
  have call: "process_reading ?e 5 ''B'' (-40) (Some [(''A'', PyStr ''x''), (''room'', PyInt 7)]) =
     (Inr (Some [(''A'', PyInt 100), (''room'', PyInt 7), (''B'', PyInt (-48)),
                 (''timestamp'', PyFloat 5)]),
      example_engine\<lparr>min_valid_sensors := 1\<rparr>)"
    by (simp add: example_engine_def dict_merge_def engine_eval)
  have dict: "is_dict (Some [(''A'', PyStr ''x''), (''room'', PyInt 7)])"
    by (simp add: is_dict_def)
  have sensor: "''A'' \<in> set (sensor_mac_list ?e)"
    by (simp add: example_engine_def init_def)
  have sensor': "''A'' \<in> set (sensor_mac_list (example_engine\<lparr>min_valid_sensors := 1\<rparr>))"
    by (simp add: example_engine_def init_def)
  have one: "length (filter (\<lambda>kv. fst kv = ''A'')
       [(''A'', PyInt 100), (''room'', PyInt 7), (''B'', PyInt (-48)), (''timestamp'', PyFloat 5)]) = 1"
    using sensor_completeness[OF call dict sensor] by blast
  show ?thesis
    using call dict sensor' one by (intro conjI)
qed

text \<open>
  C6 as stated fails when the string \<open>timestamp\<close> is a configured sensor id: the sensor has
  its one required row and the mean of its values is -40, yet the returned fingerprint
  holds the timestamp 5 under that key.
\<close>

theorem sensor_completeness_counterexample:
  "process_reading (init [''timestamp''] 0 10 1 1 ''mean'' 100) 5 ''timestamp'' (-40) None =
     (Inr (Some [(''timestamp'', PyFloat 5)]), init [''timestamp''] 0 10 1 1 ''mean'' 100) \<and>
   min_entries_per_sensor (init [''timestamp''] 0 10 1 1 ''mean'' 100)
     \<le> int (length (sensor_readings ''timestamp''
                       [\<lparr>timestamp = 5, mac_sensor = ''timestamp'', rssi = -40\<rparr>])) \<and>
   apply_filter ''mean'' (map rssi (sensor_readings ''timestamp''
                       [\<lparr>timestamp = 5, mac_sensor = ''timestamp'', rssi = -40\<rparr>]))
     = Inr (PyInt (-40))"
  by (simp add: engine_eval)

text \<open>
  C7. If the window is valid at \<open>t\<close> for a buffer, it is valid at the same \<open>t\<close> for the
  buffer with any further rows appended and nothing evicted.
\<close>

theorem validity_monotone:
  "check_valid_window e t
     \<Longrightarrow> check_valid_window (e\<lparr>readings_stack := readings_stack e @ extra\<rparr>) t"
  using valid_sensors_append[of e "readings_stack e" "sensor_mac_list e" extra]
  by (auto simp: check_valid_window_iff)

theorem validity_monotone_witness:
  "check_valid_window
     (single_engine\<lparr>readings_stack := [\<lparr>timestamp = 4, mac_sensor = ''A'', rssi = -43\<rparr>]\<rparr>) 5 \<and>
   check_valid_window
     (single_engine\<lparr>readings_stack := [\<lparr>timestamp = 4, mac_sensor = ''A'', rssi = -43\<rparr>,
                                         \<lparr>timestamp = 5, mac_sensor = ''B'', rssi = -60\<rparr>]\<rparr>) 5"
proof -
  let ?e = "single_engine\<lparr>readings_stack := [\<lparr>timestamp = 4, mac_sensor = ''A'', rssi = -43\<rparr>]\<rparr>"
  have h: "check_valid_window ?e 5"
    by (simp add: single_engine_def engine_eval)
  from validity_monotone[OF h, of "[\<lparr>timestamp = 5, mac_sensor = ''B'', rssi = -60\<rparr>]"] h
  show ?thesis by simp
qed

text \<open>
  C8. When \<open>process_reading\<close> returns a fingerprint and extra data are supplied, the result
  is the extra data overwritten by the fingerprint that the same call returns without extra
  data. The keys of that fingerprint are the sensor ids and \<open>timestamp\<close>; under each of
  them the result holds the fingerprint's value, and under every other key the value of the
  extra data, unchanged.
\<close>

theorem extra_fields_merge:
  assumes "process_reading e t m r (Some extra) = (Inr (Some result), e')"
  shows "\<exists>fp. process_reading e t m r None = (Inr (Some fp), e') \<and>
           result = dict_merge extra fp \<and>
           fst ` set fp = set (sensor_mac_list e) \<union> {''timestamp''} \<and>
           map_of fp ''timestamp'' = Some (PyFloat t) \<and>
           (\<forall>k. map_of result k = (if k \<in> fst ` set fp then map_of fp k else map_of extra k))"
proof -
  from process_reading_Some[OF assms] obtain fp0 where
    fp0: "compose_loop e (window_after e t m r) (sensor_mac_list e) [] = Inr fp0"
    and res: "result = finish_fingerprint t (Some extra) fp0"
    and e': "e' = e\<lparr>readings_stack := []\<rparr>" and valid: "window_valid e t m r"
    by (auto simp: compose_fingerprint_data_def)
  let ?fp = "finish_fingerprint t None fp0"
  have d0: "distinct (map fst fp0)"
    using compose_loop_distinct[OF fp0] by simp
  have d: "distinct (map fst ?fp)"
    using d0 by (intro finish_distinct) (simp_all add: is_dict_def)
  have 1: "process_reading e t m r None = (Inr (Some ?fp), e')"
    using fp0 valid e' by (simp add: process_reading_cases compose_fingerprint_data_def)
  have 2: "result = dict_merge extra ?fp"
    by (simp add: res finish_fingerprint_def)
  have 3: "fst ` set ?fp = set (sensor_mac_list e) \<union> {''timestamp''}"
    using compose_loop_keys[OF fp0] by (simp add: fp_keys)
  have 4: "map_of ?fp ''timestamp'' = Some (PyFloat t)"
    by (simp add: finish_lookup[OF d0])
  have 5: "map_of result k = (if k \<in> fst ` set ?fp then map_of ?fp k else map_of extra k)" for k
  proof -
    have "k \<in> fst ` set ?fp \<longleftrightarrow> map_of ?fp k \<noteq> None"
      by (simp add: map_of_eq_None_iff)
    then show ?thesis
      unfolding 2 dict_merge_lookup[OF d]
      by (cases "map_of ?fp k") (simp_all add: map_add_def)
  qed
  show ?thesis using 1 2 3 4 5 by blast
qed

theorem extra_fields_merge_witness:
  "process_reading
     (single_engine\<lparr>readings_stack := [\<lparr>timestamp = 4, mac_sensor = ''A'', rssi = -43\<rparr>]\<rparr>)
     5 ''A'' (-40) (Some [(''A'', PyStr ''x''), (''room'', PyInt 7), (''timestamp'', PyNone)]) =
     (Inr (Some [(''A'', PyInt (-42)), (''room'', PyInt 7), (''timestamp'', PyFloat 5)]),
      single_engine) \<and>
   [(''A'', PyInt (-42)), (''room'', PyInt 7), (''timestamp'', PyFloat 5)] =
     dict_merge [(''A'', PyStr ''x''), (''room'', PyInt 7), (''timestamp'', PyNone)]
       [(''A'', PyInt (-42)), (''timestamp'', PyFloat 5)]"
proof -
  let ?e = "single_engine\<lparr>readings_stack := [\<lparr>timestamp = 4, mac_sensor = ''A'', rssi = -43\<rparr>]\<rparr>"
  let ?extra = "[(''A'', PyStr ''x''), (''room'', PyInt 7), (''timestamp'', PyNone)]"
  let ?result = "[(''A'', PyInt (-42)), (''room'', PyInt 7), (''timestamp'', PyFloat 5)]"
  have call: "process_reading ?e 5 ''A'' (-40) (Some ?extra) = (Inr (Some ?result), single_engine)"
    by (simp add: single_engine_def dict_merge_def engine_eval)
  have plain: "process_reading ?e 5 ''A'' (-40) None =
      (Inr (Some [(''A'', PyInt (-42)), (''timestamp'', PyFloat 5)]), single_engine)"
    by (simp add: single_engine_def engine_eval)
  from extra_fields_merge[OF call] obtain fp where
    "process_reading ?e 5 ''A'' (-40) None = (Inr (Some fp), single_engine)"
    and "?result = dict_merge ?extra fp"
    by blast
  with plain have "?result = dict_merge ?extra [(''A'', PyInt (-42)), (''timestamp'', PyFloat 5)]"
    by simp
  with call show ?thesis by (intro conjI)
qed

text \<open>
  C10 (amended). When \<open>process_reading\<close> raises the error of an unknown filter name, the
  buffer has been cleared before: the engine after the call is the engine before it with an
  empty buffer. The window was valid and not empty, and its last row was the reading of
  this call: these rows are lost, the call is not atomic. The engine after the call differs
  from the engine before it exactly when the buffer was not empty before the call, which
  is always so when \<open>min_window_size\<close> is positive.
\<close>

theorem failed_call_clears_buffer:
  assumes "process_reading e t m r a = (Inl InvalidFilteringType, e')"
  shows "e' = e\<lparr>readings_stack := []\<rparr> \<and> readings_stack e' = [] \<and>
         window_valid e t m r \<and>
         window_after e t m r \<noteq> [] \<and>
         last (window_after e t m r) = \<lparr>timestamp = t, mac_sensor = m, rssi = r\<rparr> \<and>
         (e' \<noteq> e \<longleftrightarrow> readings_stack e \<noteq> []) \<and>
         (0 < min_window_size e \<longrightarrow> readings_stack e \<noteq> [] \<and> e' \<noteq> e)"
proof -
  let ?row = "\<lparr>timestamp = t, mac_sensor = m, rssi = r\<rparr>"
  have e': "e' = e\<lparr>readings_stack := []\<rparr>" and valid: "window_valid e t m r"
    using assms by (auto simp: process_reading_cases split: if_splits sum.splits)
  have ne: "window_after e t m r \<noteq> []"
    using valid by (auto simp: window_valid_def check_valid_window_iff)
  obtain old where old: "old @ window_after e t m r = readings_stack e @ [?row]"
    unfolding window_after_def using evict_suffix by blast
  have lst: "last (window_after e t m r) = ?row"
    using ne old by (metis last_appendR last_snoc)
  have pos: "readings_stack e \<noteq> []" if pos: "0 < min_window_size e"
  proof
    assume "readings_stack e = []"
    then have "window_after e t m r = [?row]"
      using ne by (auto simp: window_after_def split: if_splits)
    then show False
      using valid pos by (simp add: window_valid_def check_valid_window_iff)
  qed
  have "e' \<noteq> e" if "readings_stack e \<noteq> []"
    using that e' by (metis engine.select_convs(8) engine.surjective engine.update_convs(8))
  moreover have "e' = e" if "readings_stack e = []"
    using that e' by (metis engine.surjective engine.update_convs(8))
  ultimately have differs: "e' \<noteq> e \<longleftrightarrow> readings_stack e \<noteq> []"
    by blast
  show ?thesis using e' valid ne lst pos differs by auto
qed

theorem failed_call_clears_buffer_witness:
  "process_reading
     (bogus_engine\<lparr>readings_stack := [\<lparr>timestamp = 0, mac_sensor = ''A'', rssi = -40\<rparr>]\<rparr>)
     1 ''A'' (-42) None = (Inl InvalidFilteringType, bogus_engine) \<and>
   readings_stack bogus_engine = [] \<and>
   window_after
     (bogus_engine\<lparr>readings_stack := [\<lparr>timestamp = 0, mac_sensor = ''A'', rssi = -40\<rparr>]\<rparr>)
     1 ''A'' (-42) \<noteq> [] \<and>
   bogus_engine \<noteq> bogus_engine\<lparr>readings_stack := [\<lparr>timestamp = 0, mac_sensor = ''A'', rssi = -40\<rparr>]\<rparr>"
proof -
  let ?e = "bogus_engine\<lparr>readings_stack := [\<lparr>timestamp = 0, mac_sensor = ''A'', rssi = -40\<rparr>]\<rparr>"
  have call: "process_reading ?e 1 ''A'' (-42) None = (Inl InvalidFilteringType, bogus_engine)"
    by (simp add: bogus_engine_def engine_eval)
  have before: "readings_stack ?e \<noteq> []" by simp
  note inst = failed_call_clears_buffer[OF call]
  from inst have "readings_stack bogus_engine = []" and "window_after ?e 1 ''A'' (-42) \<noteq> []"
    by blast+
  moreover from inst before have "bogus_engine \<noteq> ?e" by blast
  ultimately show ?thesis using call by (intro conjI)
qed

text \<open>
  C10 as stated fails when the buffer is empty before the call, which a minimal window of 0
  allows: the failed call clears a buffer that held only the reading just appended, and
  the engine after the call is the engine before it.
\<close>

theorem failed_call_counterexample:
  "process_reading (init [''A''] 0 10 1 1 ''bogus'' 100) 0 ''A'' (-40) None =
     (Inl InvalidFilteringType, init [''A''] 0 10 1 1 ''bogus'' 100)"
  by (simp add: engine_eval)

end
